theory Spec2Isabelle
  imports Main
begin

section \<open>Data model\<close>

text \<open>
  The exceptions that the code of \<^verbatim>\<open>mpttmenu/processors.py\<close> can meet: the two that
  the path lookup catches, and the two that a queryset's \<^verbatim>\<open>get()\<close> raises.
\<close>

datatype error = KeyError | AttributeError | DoesNotExist | MultipleObjectsReturned

text \<open>
  A subject is any model instance that a menu node may point to. \<^verbatim>\<open>model_class\<close>
  stands for its class (and thereby its content type), \<^verbatim>\<open>subj_id\<close> for its \<^verbatim>\<open>id\<close>,
  \<^verbatim>\<open>menu_node\<close> tells whether the class declares the reverse generic relation
  (\<^verbatim>\<open>hasattr(self.object, 'menu_node')\<close>), and \<^verbatim>\<open>get_absolute_url\<close> is \<open>None\<close>
  for a class without that method.
\<close>

record subject =
  model_class :: string
  subj_id :: nat
  menu_node :: bool
  get_absolute_url :: "string option"

text \<open>
  A row of the \<^verbatim>\<open>MenuNode\<close> table: the nested-set fields of django-mptt
  (\<^verbatim>\<open>tree_id\<close>, \<^verbatim>\<open>lft\<close>, \<^verbatim>\<open>rght\<close>, \<^verbatim>\<open>level\<close>, \<^verbatim>\<open>parent\<close>) and the generic foreign
  key (\<^verbatim>\<open>content_type\<close>, \<^verbatim>\<open>object_id\<close>).
\<close>

record MenuNode =
  node_id :: nat
  parent :: "nat option"
  tree_id :: nat
  lft :: nat
  rght :: nat
  level :: nat
  content_type :: string
  object_id :: nat

record database =
  menu_nodes :: "MenuNode list"
  subjects :: "subject list"

text \<open>
  The rendering context: \<^verbatim>\<open>context['view'].request.path\<close> walks a key and two
  attributes, each of which may be missing.
\<close>

datatype request = Request (path: "string option")

datatype view = View (request: "request option")

record render_context =
  ctx_object :: "subject option"
  ctx_view :: "view option"
  ctx_request_path :: "string option"

text \<open>
  Query sets are objects with an identity: the heap is the list of the query sets built
  so far, and a reference is an index into it.
\<close>

type_synonym queryset = "MenuNode list"

type_synonym heap = "queryset list"

type_synonym cache_key = "(string \<times> nat) option"

text \<open>
  Modelled from the spec: \<^verbatim>\<open>MenuCache\<close> of \<^verbatim>\<open>mpttmenu/utils.py\<close>, a store keyed by the
  subject's identity that answers a lookup of a key it does not hold with a false value
  (\<open>None\<close>) and is empty when created.
\<close>

type_synonym MenuCache = "cache_key \<rightharpoonup> nat"

definition MenuCache_new :: MenuCache where
  "MenuCache_new = Map.empty"

definition cache_getitem :: "MenuCache \<Rightarrow> cache_key \<Rightarrow> nat option" where
  "cache_getitem c k = c k"

definition cache_setitem :: "MenuCache \<Rightarrow> cache_key \<Rightarrow> nat \<Rightarrow> MenuCache" where
  "cache_setitem c k r = c(k \<mapsto> r)"

text \<open>Django model instances are equal, and hash alike, when class and id agree.\<close>

definition obj_key :: "subject option \<Rightarrow> cache_key" where
  "obj_key ob = (case ob of None \<Rightarrow> None | Some s \<Rightarrow> Some (model_class s, subj_id s))"

record MenuProcessor =
  ctx :: render_context
  object_passed :: bool
  object :: "subject option"
  node :: "MenuNode option"
  level_min :: int
  level_max :: int
  cache :: MenuCache

section \<open>The query layer\<close>

text \<open>
  \<^verbatim>\<open>MenuNode.tree\<close> is a django-mptt tree manager: its query sets are ordered by
  \<^verbatim>\<open>tree_id\<close>, then \<^verbatim>\<open>lft\<close>.
\<close>

definition tree_all :: "database \<Rightarrow> queryset" where
  "tree_all db = sort_key tree_id (sort_key lft (menu_nodes db))"

text \<open>\<^verbatim>\<open>QuerySet.get()\<close>: exactly one row, or an exception.\<close>

fun queryset_get :: "'a list \<Rightarrow> error + 'a" where
  "queryset_get [] = Inl DoesNotExist"
| "queryset_get [x] = Inr x"
| "queryset_get (x # y # ys) = Inl MultipleObjectsReturned"

text \<open>The generic foreign key \<^verbatim>\<open>content_object\<close>; \<open>None\<close> when the row it names is gone.\<close>

definition content_object :: "database \<Rightarrow> MenuNode \<Rightarrow> subject option" where
  "content_object db m =
     List.find (\<lambda>s. model_class s = content_type m \<and> subj_id s = object_id m) (subjects db)"

text \<open>django-mptt's node methods, on the nested-set fields.\<close>

definition is_root_node :: "MenuNode \<Rightarrow> bool" where
  "is_root_node m = (parent m = None)"

definition get_descendant_count :: "MenuNode \<Rightarrow> int" where
  "get_descendant_count m = (int (rght m) - int (lft m) - 1) div 2"

definition is_leaf_node :: "MenuNode \<Rightarrow> bool" where
  "is_leaf_node m = (get_descendant_count m = 0)"

definition root_nodes :: "database \<Rightarrow> queryset" where
  "root_nodes db = filter (\<lambda>m. parent m = None) (tree_all db)"

definition get_root :: "database \<Rightarrow> MenuNode \<Rightarrow> error + MenuNode" where
  "get_root db m =
     (if is_root_node m then Inr m
      else queryset_get (filter (\<lambda>r. tree_id r = tree_id m \<and> parent r = None) (tree_all db)))"

definition get_descendants :: "database \<Rightarrow> MenuNode \<Rightarrow> bool \<Rightarrow> queryset" where
  "get_descendants db m include_self =
     (if is_leaf_node m then
        (if \<not> include_self then [] else filter (\<lambda>d. node_id d = node_id m) (tree_all db))
      else
        (let left = (if \<not> include_self then int (lft m) + 1 else int (lft m));
             right = (if \<not> include_self then int (rght m) - 1 else int (rght m))
         in filter (\<lambda>d. tree_id d = tree_id m \<and> left \<le> int (lft d) \<and> int (lft d) \<le> right)
              (tree_all db)))"

definition get_ancestors :: "database \<Rightarrow> MenuNode \<Rightarrow> queryset" where
  "get_ancestors db m =
     (if is_root_node m then []
      else
        (let left = int (lft m) - 1; right = int (rght m) + 1
         in sort_key lft
              (filter (\<lambda>a. int (lft a) \<le> left \<and> right \<le> int (rght a) \<and> tree_id a = tree_id m)
                 (tree_all db))))"

section \<open>MenuProcessor\<close>

subsection \<open>Finding the subject and its node\<close>

text \<open>\<^verbatim>\<open>self.context['view'].request.path\<close>\<close>

definition view_request_path :: "render_context \<Rightarrow> error + string" where
  "view_request_path c =
     (case ctx_view c of
        None \<Rightarrow> Inl KeyError
      | Some v \<Rightarrow>
          (case request v of
             None \<Rightarrow> Inl AttributeError
           | Some r \<Rightarrow> (case path r of None \<Rightarrow> Inl AttributeError | Some s \<Rightarrow> Inr s)))"

text \<open>\<^verbatim>\<open>self.context['request_path']\<close>\<close>

definition context_request_path :: "render_context \<Rightarrow> error + string" where
  "context_request_path c =
     (case ctx_request_path c of None \<Rightarrow> Inl KeyError | Some s \<Rightarrow> Inr s)"

text \<open>The \<^verbatim>\<open>try\<close> block of \<^verbatim>\<open>determine_object_from_context\<close> with its handler.\<close>

definition lookup_path :: "render_context \<Rightarrow> error + string" where
  "lookup_path c =
     (case view_request_path c of
        Inl KeyError \<Rightarrow> context_request_path c
      | Inl AttributeError \<Rightarrow> context_request_path c
      | Inl e \<Rightarrow> Inl e
      | Inr s \<Rightarrow> Inr s)"

text \<open>
  The list comprehension
  \<^verbatim>\<open>[m for m in MenuNode.tree.all() if m.content_object.get_absolute_url() == path]\<close>:
  a node whose subject is gone, or whose subject has no such method, raises.
\<close>

fun nodes_matching_path :: "database \<Rightarrow> string \<Rightarrow> MenuNode list \<Rightarrow> error + MenuNode list" where
  "nodes_matching_path db p [] = Inr []"
| "nodes_matching_path db p (m # ms) =
     (case content_object db m of
        None \<Rightarrow> Inl AttributeError
      | Some s \<Rightarrow>
          (case get_absolute_url s of
             None \<Rightarrow> Inl AttributeError
           | Some u \<Rightarrow>
               (case nodes_matching_path db p ms of
                  Inl e \<Rightarrow> Inl e
                | Inr l \<Rightarrow> Inr (if u = p then m # l else l))))"

text \<open>
  In the branch of a match the source assigns \<^verbatim>\<open>self.node = l[0]\<close> and then reads
  \<^verbatim>\<open>self.object.content_object\<close>. There \<^verbatim>\<open>self.object\<close> is a false value: \<open>None\<close> has no
  attribute \<^verbatim>\<open>content_object\<close>, and neither has a subject.
\<close>

definition determine_object_from_context :: "database \<Rightarrow> MenuProcessor \<Rightarrow> error + MenuProcessor" where
  "determine_object_from_context db p =
     (if \<not> object_passed p then
        (let p1 = p\<lparr>object := (case object p of Some s \<Rightarrow> Some s | None \<Rightarrow> ctx_object (ctx p))\<rparr>
         in if object p1 = None then
              (case lookup_path (ctx p1) of
                 Inl e \<Rightarrow> Inl e
               | Inr pth \<Rightarrow>
                   (case nodes_matching_path db pth (tree_all db) of
                      Inl e \<Rightarrow> Inl e
                    | Inr l \<Rightarrow>
                        (case l of
                           [] \<Rightarrow> Inr p1
                         | m # _ \<Rightarrow>
                             (let p2 = p1\<lparr>node := Some m\<rparr>
                              in case object p2 of
                                   None \<Rightarrow> Inl AttributeError
                                 | Some s \<Rightarrow> Inl AttributeError))))
            else Inr p1)
      else Inr p)"

text \<open>
  Both branches of \<^verbatim>\<open>determine_node_from_object\<close> ask for the one node with the
  subject's content type and id: through the reverse generic relation, or through the
  tree manager.
\<close>

definition nodes_of_subject :: "database \<Rightarrow> subject \<Rightarrow> queryset" where
  "nodes_of_subject db s =
     filter (\<lambda>m. content_type m = model_class s \<and> object_id m = subj_id s) (tree_all db)"

definition determine_node_from_object :: "database \<Rightarrow> MenuProcessor \<Rightarrow> error + MenuProcessor" where
  "determine_node_from_object db p =
     (if node p \<noteq> None \<or> object p = None then Inr p
      else
        (case object p of
           None \<Rightarrow> Inr p
         | Some s \<Rightarrow>
             (if menu_node s then
                (case queryset_get (nodes_of_subject db s) of
                   Inl e \<Rightarrow> Inl e
                 | Inr n \<Rightarrow> Inr (p\<lparr>node := Some n\<rparr>))
              else
                (case queryset_get (nodes_of_subject db s) of
                   Inl e \<Rightarrow> Inl e
                 | Inr n \<Rightarrow> Inr (p\<lparr>node := Some n\<rparr>)))))"

text \<open>
  The constructor. \<open>kwargs\<close> is \<open>None\<close> when the keyword \<^verbatim>\<open>object\<close> is absent, and
  \<open>Some ob\<close> when it is given (\<open>ob\<close> itself may be \<open>None\<close>).
\<close>

definition new_processor ::
  "render_context \<Rightarrow> int \<Rightarrow> int \<Rightarrow> subject option option \<Rightarrow> MenuProcessor" where
  "new_processor c lo hi kwargs =
     \<lparr>ctx = c,
      object_passed = (kwargs \<noteq> None),
      object = (case kwargs of None \<Rightarrow> None | Some ob \<Rightarrow> ob),
      node = None,
      level_min = lo,
      level_max = hi,
      cache = MenuCache_new\<rparr>"

definition MenuProcessor_init ::
  "database \<Rightarrow> render_context \<Rightarrow> int \<Rightarrow> int \<Rightarrow> subject option option \<Rightarrow> error + MenuProcessor" where
  "MenuProcessor_init db c lo hi kwargs =
     (case determine_object_from_context db (new_processor c lo hi kwargs) of
        Inl e \<Rightarrow> Inl e
      | Inr p \<Rightarrow> determine_node_from_object db p)"

definition MENU_MAX_LEVEL :: int where
  "MENU_MAX_LEVEL = 64"

subsection \<open>The convenient methods\<close>

definition get_all_nodes :: "database \<Rightarrow> queryset" where
  "get_all_nodes db = tree_all db"

definition get_root_nodes :: "database \<Rightarrow> queryset" where
  "get_root_nodes db = root_nodes db"

definition get_branch_nodes :: "database \<Rightarrow> MenuProcessor \<Rightarrow> error + queryset" where
  "get_branch_nodes db p =
     (case node p of
        None \<Rightarrow> Inl AttributeError
      | Some n \<Rightarrow>
          (case get_root db n of Inl e \<Rightarrow> Inl e | Inr r \<Rightarrow> Inr (get_descendants db r True)))"

definition get_root_and_branch_nodes :: "database \<Rightarrow> MenuProcessor \<Rightarrow> error + queryset" where
  "get_root_and_branch_nodes db p =
     (case node p of
        None \<Rightarrow> Inl AttributeError
      | Some n \<Rightarrow>
          (case get_root db n of
             Inl e \<Rightarrow> Inl e
           | Inr r \<Rightarrow>
               Inr (filter (\<lambda>m. level m = 0 \<or> node_id m \<in> set (map node_id (get_descendants db r False)))
                      (tree_all db))))"

definition get_root_and_sibblings_nodes :: "database \<Rightarrow> MenuProcessor \<Rightarrow> error + queryset" where
  "get_root_and_sibblings_nodes db p =
     (case node p of
        None \<Rightarrow> Inl AttributeError
      | Some n \<Rightarrow> Inr (filter (\<lambda>m. level m = 0 \<or> parent m = parent n) (tree_all db)))"

definition get_root_and_children_nodes :: "database \<Rightarrow> MenuProcessor \<Rightarrow> error + queryset" where
  "get_root_and_children_nodes db p =
     (case node p of
        None \<Rightarrow> Inl AttributeError
      | Some n \<Rightarrow> Inr (filter (\<lambda>m. level m = 0 \<or> parent m = Some (node_id n)) (tree_all db)))"

definition get_children_nodes :: "database \<Rightarrow> MenuProcessor \<Rightarrow> error + queryset" where
  "get_children_nodes db p =
     (case node p of
        None \<Rightarrow> Inl AttributeError
      | Some n \<Rightarrow> Inr (filter (\<lambda>m. parent m = Some (node_id n)) (tree_all db)))"

definition get_ancestors_nodes :: "database \<Rightarrow> MenuProcessor \<Rightarrow> error + queryset" where
  "get_ancestors_nodes db p =
     (case node p of None \<Rightarrow> Inl AttributeError | Some n \<Rightarrow> Inr (get_ancestors db n))"

definition get_descendants_nodes :: "database \<Rightarrow> MenuProcessor \<Rightarrow> error + queryset" where
  "get_descendants_nodes db p =
     (case node p of None \<Rightarrow> Inl AttributeError | Some n \<Rightarrow> Inr (get_descendants db n False))"

subsection \<open>Choosing the tree\<close>

text \<open>
  \<^verbatim>\<open>determine_tree\<close> is the hook a subclass overrides with one of the convenient
  methods; the strategy says which one. The method as written is \<open>AllNodes\<close>.
\<close>

datatype strategy =
  AllNodes | RootNodes | BranchNodes | RootAndBranchNodes | RootAndSibblingsNodes
  | RootAndChildrenNodes | ChildrenNodes | AncestorsNodes | DescendantsNodes

fun determine_tree :: "strategy \<Rightarrow> database \<Rightarrow> MenuProcessor \<Rightarrow> error + queryset" where
  "determine_tree AllNodes db p = Inr (get_all_nodes db)"
| "determine_tree RootNodes db p = Inr (get_root_nodes db)"
| "determine_tree BranchNodes db p = get_branch_nodes db p"
| "determine_tree RootAndBranchNodes db p = get_root_and_branch_nodes db p"
| "determine_tree RootAndSibblingsNodes db p = get_root_and_sibblings_nodes db p"
| "determine_tree RootAndChildrenNodes db p = get_root_and_children_nodes db p"
| "determine_tree ChildrenNodes db p = get_children_nodes db p"
| "determine_tree AncestorsNodes db p = get_ancestors_nodes db p"
| "determine_tree DescendantsNodes db p = get_descendants_nodes db p"

definition get_default_tree :: "database \<Rightarrow> MenuProcessor \<Rightarrow> queryset" where
  "get_default_tree db p = get_all_nodes db"

subsection \<open>get_nodes\<close>

text \<open>\<^verbatim>\<open>filter(level__range=[lo, hi])\<close>: both ends belong to the range.\<close>

definition level_range :: "int \<Rightarrow> int \<Rightarrow> queryset \<Rightarrow> queryset" where
  "level_range lo hi ns = filter (\<lambda>m. lo \<le> int (level m) \<and> int (level m) \<le> hi) ns"

text \<open>The query set behind a reference; a reference to nothing holds no rows.\<close>

definition qs_at :: "heap \<Rightarrow> nat \<Rightarrow> queryset" where
  "qs_at h r = (if r < length h then h ! r else [])"

text \<open>The \<^verbatim>\<open>try\<close> block of \<^verbatim>\<open>get_nodes\<close> with its handler.\<close>

definition tree_or_default :: "strategy \<Rightarrow> database \<Rightarrow> MenuProcessor \<Rightarrow> error + queryset" where
  "tree_or_default st db p =
     (case determine_tree st db p of
        Inl AttributeError \<Rightarrow> Inr (get_default_tree db p)
      | Inl e \<Rightarrow> Inl e
      | Inr ns \<Rightarrow> Inr ns)"

text \<open>
  The body of \<^verbatim>\<open>if not nodes:\<close>. The query set it builds is a new object on the heap,
  and the cache keeps a reference to it.
\<close>

definition build_nodes ::
  "strategy \<Rightarrow> database \<Rightarrow> heap \<times> MenuProcessor \<Rightarrow> error + (nat \<times> heap \<times> MenuProcessor)" where
  "build_nodes st db s =
     (case s of (h, p) \<Rightarrow>
        (case tree_or_default st db p of
           Inl e \<Rightarrow> Inl e
         | Inr ns \<Rightarrow>
             (let ns' = level_range (level_min p) (level_max p) ns;
                  r = length h
              in Inr (r, h @ [ns'],
                      p\<lparr>cache := cache_setitem (cache p) (obj_key (object p)) r\<rparr>))))"

text \<open>
  \<^verbatim>\<open>get_nodes\<close> returns a reference to a query set. \<^verbatim>\<open>not nodes\<close> holds for \<open>None\<close>
  and for a query set without rows.
\<close>

definition get_nodes ::
  "strategy \<Rightarrow> database \<Rightarrow> heap \<times> MenuProcessor \<Rightarrow> error + (nat \<times> heap \<times> MenuProcessor)" where
  "get_nodes st db s =
     (case s of (h, p) \<Rightarrow>
        (case cache_getitem (cache p) (obj_key (object p)) of
           None \<Rightarrow> build_nodes st db (h, p)
         | Some r \<Rightarrow> (if qs_at h r = [] then build_nodes st db (h, p) else Inr (r, h, p))))"

section \<open>A rendering pass\<close>

text \<open>
  A caller that builds a processor and asks for the nodes once, and one that asks
  twice: the first yields the rows, the second both references with the heap after
  each call.
\<close>

definition returned_rows :: "error + (nat \<times> heap \<times> MenuProcessor) \<Rightarrow> error + queryset" where
  "returned_rows res = (case res of Inl e \<Rightarrow> Inl e | Inr (r, h, p) \<Rightarrow> Inr (qs_at h r))"

definition resolve ::
  "strategy \<Rightarrow> database \<Rightarrow> render_context \<Rightarrow> int \<Rightarrow> int \<Rightarrow> subject option option
     \<Rightarrow> error + queryset" where
  "resolve st db c lo hi kwargs =
     (case MenuProcessor_init db c lo hi kwargs of
        Inl e \<Rightarrow> Inl e
      | Inr p \<Rightarrow> returned_rows (get_nodes st db ([], p)))"

definition call_twice ::
  "strategy \<Rightarrow> database \<Rightarrow> heap \<times> MenuProcessor \<Rightarrow> error + ((nat \<times> heap) \<times> (nat \<times> heap))" where
  "call_twice st db s =
     (case get_nodes st db s of
        Inl e \<Rightarrow> Inl e
      | Inr (r1, h1, p1) \<Rightarrow>
          (case get_nodes st db (h1, p1) of
             Inl e \<Rightarrow> Inl e
           | Inr (r2, h2, p2) \<Rightarrow> Inr ((r1, h1), (r2, h2))))"

definition resolve_twice ::
  "strategy \<Rightarrow> database \<Rightarrow> render_context \<Rightarrow> int \<Rightarrow> int \<Rightarrow> subject option option
     \<Rightarrow> error + ((nat \<times> heap) \<times> (nat \<times> heap))" where
  "resolve_twice st db c lo hi kwargs =
     (case MenuProcessor_init db c lo hi kwargs of
        Inl e \<Rightarrow> Inl e
      | Inr p \<Rightarrow> call_twice st db ([], p))"

text \<open>
  The states of one pass: the processor as its constructor leaves it, with no query set
  built yet, and every state that a call of \<^verbatim>\<open>get_nodes\<close> leads to from there.
\<close>

inductive pass_state ::
  "strategy \<Rightarrow> database \<Rightarrow> render_context \<Rightarrow> int \<Rightarrow> int \<Rightarrow> subject option option
     \<Rightarrow> heap \<times> MenuProcessor \<Rightarrow> bool"
  for st db c lo hi kwargs where
  created: "MenuProcessor_init db c lo hi kwargs = Inr p \<Longrightarrow> pass_state st db c lo hi kwargs ([], p)"
| called: "pass_state st db c lo hi kwargs s \<Longrightarrow> get_nodes st db s = Inr (r, s')
     \<Longrightarrow> pass_state st db c lo hi kwargs s'"

section \<open>Trees by parent references\<close>

text \<open>
  \<open>descendant_of ns a m\<close>: following the parent references from \<open>m\<close> through rows of
  \<open>ns\<close> reaches \<open>a\<close>.
\<close>

inductive descendant_of :: "MenuNode list \<Rightarrow> MenuNode \<Rightarrow> MenuNode \<Rightarrow> bool"
  for ns a where
  child: "m \<in> set ns \<Longrightarrow> parent m = Some (node_id a) \<Longrightarrow> descendant_of ns a m"
| deeper: "m \<in> set ns \<Longrightarrow> q \<in> set ns \<Longrightarrow> parent m = Some (node_id q) \<Longrightarrow> descendant_of ns a q
     \<Longrightarrow> descendant_of ns a m"

code_pred descendant_of .

text \<open>
  What django-mptt keeps true of the table: ids are unique, a row without a parent is
  the only such row of its tree and has level 0, and the parent of any other row is a
  row of the same tree, one level up, whose interval encloses the row's own.
\<close>

definition wf_mptt :: "MenuNode list \<Rightarrow> bool" where
  "wf_mptt ns =
     (distinct (map node_id ns) \<and>
      (\<forall>m \<in> set ns. lft m < rght m) \<and>
      (\<forall>m \<in> set ns.
         (case parent m of
            None \<Rightarrow> level m = 0 \<and> (\<forall>r \<in> set ns. parent r = None \<and> tree_id r = tree_id m \<longrightarrow> r = m)
          | Some i \<Rightarrow>
              (\<exists>q \<in> set ns. node_id q = i \<and> tree_id q = tree_id m \<and> lft q < lft m
                 \<and> rght m < rght q \<and> level m = Suc (level q)))))"

section \<open>Example data\<close>

text \<open>A tree with root A, children B and C under A, and D under B; one page per node.\<close>

definition page :: "nat \<Rightarrow> string \<Rightarrow> subject" where
  "page i u = \<lparr>model_class = ''page'', subj_id = i, menu_node = True, get_absolute_url = Some u\<rparr>"

definition article :: "nat \<Rightarrow> string \<Rightarrow> subject" where
  "article i u = \<lparr>model_class = ''article'', subj_id = i, menu_node = False, get_absolute_url = Some u\<rparr>"

definition mk_node :: "nat \<Rightarrow> nat option \<Rightarrow> nat \<Rightarrow> nat \<Rightarrow> nat \<Rightarrow> nat \<Rightarrow> string \<Rightarrow> nat \<Rightarrow> MenuNode" where
  "mk_node i par t l r lv ct oid =
     \<lparr>node_id = i, parent = par, tree_id = t, lft = l, rght = r, level = lv,
      content_type = ct, object_id = oid\<rparr>"

definition node_A :: MenuNode where
  "node_A = mk_node 1 None 1 1 8 0 ''page'' 1"

definition node_B :: MenuNode where
  "node_B = mk_node 2 (Some 1) 1 2 5 1 ''page'' 2"

definition node_C :: MenuNode where
  "node_C = mk_node 3 (Some 1) 1 6 7 1 ''page'' 3"

definition node_D :: MenuNode where
  "node_D = mk_node 4 (Some 2) 1 3 4 2 ''page'' 4"

definition node_E :: MenuNode where
  "node_E = mk_node 5 None 2 1 4 0 ''article'' 1"

definition node_F :: MenuNode where
  "node_F = mk_node 6 (Some 5) 2 2 3 1 ''article'' 2"

definition menu_db :: database where
  "menu_db =
     \<lparr>menu_nodes = [node_A, node_B, node_C, node_D],
      subjects = [page 1 ''/a/'', page 2 ''/a/b/'', page 3 ''/a/c/'', page 4 ''/a/b/d/'']\<rparr>"

text \<open>The same tree beside a second one, with root E and its child F.\<close>

definition forest_db :: database where
  "forest_db =
     \<lparr>menu_nodes = [node_E, node_A, node_B, node_F, node_C, node_D],
      subjects = [page 1 ''/a/'', page 2 ''/a/b/'', page 3 ''/a/c/'', page 4 ''/a/b/d/'',
                  article 1 ''/e/'', article 2 ''/e/f/'']\<rparr>"

text \<open>A table in which two rows point to page 4, and none to page 9.\<close>

definition broken_db :: database where
  "broken_db =
     \<lparr>menu_nodes = [node_A, node_D, mk_node 7 (Some 1) 1 6 7 1 ''page'' 4],
      subjects = [page 1 ''/a/'', page 4 ''/a/b/d/'', page 9 ''/nine/'']\<rparr>"

definition empty_context :: render_context where
  "empty_context = \<lparr>ctx_object = None, ctx_view = None, ctx_request_path = None\<rparr>"

definition path_context :: "string \<Rightarrow> render_context" where
  "path_context u =
     \<lparr>ctx_object = None, ctx_view = Some (View (Some (Request (Some u)))), ctx_request_path = None\<rparr>"

definition legacy_context :: "string \<Rightarrow> render_context" where
  "legacy_context u = \<lparr>ctx_object = None, ctx_view = None, ctx_request_path = Some u\<rparr>"

definition object_context :: "subject \<Rightarrow> render_context" where
  "object_context s = \<lparr>ctx_object = Some s, ctx_view = None, ctx_request_path = None\<rparr>"


section \<open>The invariant of a pass\<close>

text \<open>
  The window is the one given to the constructor, and every reference in the cache
  points to a query set on the heap that holds what the strategy selects, within the
  window.
\<close>

definition pass_inv :: "strategy \<Rightarrow> database \<Rightarrow> int \<Rightarrow> int \<Rightarrow> heap \<times> MenuProcessor \<Rightarrow> bool" where
  "pass_inv st db lo hi s =
     (case s of (h, p) \<Rightarrow>
        level_min p = lo \<and> level_max p = hi \<and>
        (\<forall>k r. cache p k = Some r \<longrightarrow>
           r < length h \<and> (\<exists>ns. tree_or_default st db p = Inr ns \<and> h ! r = level_range lo hi ns)))"

section \<open>Properties\<close>

lemmas example_defs = menu_db_def forest_db_def broken_db_def node_A_def node_B_def node_C_def
  node_D_def node_E_def node_F_def mk_node_def page_def article_def empty_context_def
  path_context_def legacy_context_def object_context_def

lemmas processor_defs = MenuProcessor_init_def new_processor_def determine_object_from_context_def
  determine_node_from_object_def nodes_of_subject_def tree_all_def lookup_path_def
  view_request_path_def context_request_path_def content_object_def MenuCache_new_def

lemma set_tree_all [simp]: "set (tree_all db) = set (menu_nodes db)"
  by (simp add: tree_all_def)

lemma distinct_tree_all [simp]: "distinct (tree_all db) = distinct (menu_nodes db)"
  by (simp add: tree_all_def)

lemma distinct_rows: "distinct (map node_id ns) \<Longrightarrow> distinct ns"
  by (rule distinct_map [THEN iffD1, THEN conjunct1])

subsection \<open>The subject\<close>

text \<open>
  C4. When the keyword \<^verbatim>\<open>object\<close> is given, \<^verbatim>\<open>determine_object_from_context\<close> leaves the
  processor as the constructor built it, whatever the context and the table hold: the
  subject is the one supplied, and a constructor call with any other context ends the
  same way, with the same processor but for the context it keeps.
\<close>

theorem explicit_subject_skips_context:
  "determine_object_from_context db (new_processor c lo hi (Some ob))
     = Inr (new_processor c lo hi (Some ob))
   \<and> object (new_processor c lo hi (Some ob)) = ob
   \<and> (\<forall>p. MenuProcessor_init db c lo hi (Some ob) = Inr p \<longrightarrow>
          object p = ob \<and> MenuProcessor_init db c' lo hi (Some ob) = Inr (p\<lparr>ctx := c'\<rparr>))
   \<and> (\<forall>e. MenuProcessor_init db c lo hi (Some ob) = Inl e \<longrightarrow>
          MenuProcessor_init db c' lo hi (Some ob) = Inl e)"
  by (auto simp: MenuProcessor_init_def new_processor_def determine_object_from_context_def
      determine_node_from_object_def split: sum.splits option.splits if_splits)

theorem explicit_subject_skips_context_witness:
  "MenuProcessor_init menu_db (path_context ''/a/'') 0 64 (Some (Some (page 4 ''/a/b/d/'')))
     = Inr ((new_processor (path_context ''/a/'') 0 64 (Some (Some (page 4 ''/a/b/d/''))))
              \<lparr>node := Some node_D\<rparr>)
   \<and> MenuProcessor_init menu_db empty_context 0 64 (Some (Some (page 4 ''/a/b/d/'')))
     = Inr ((new_processor (path_context ''/a/'') 0 64 (Some (Some (page 4 ''/a/b/d/''))))
              \<lparr>node := Some node_D, ctx := empty_context\<rparr>)"
proof -
  have a: "MenuProcessor_init menu_db (path_context ''/a/'') 0 64 (Some (Some (page 4 ''/a/b/d/'')))
     = Inr ((new_processor (path_context ''/a/'') 0 64 (Some (Some (page 4 ''/a/b/d/''))))
              \<lparr>node := Some node_D\<rparr>)"
    by (simp add: processor_defs example_defs)
  from explicit_subject_skips_context
         [of menu_db "path_context ''/a/''" 0 64 "Some (page 4 ''/a/b/d/'')" empty_context] a
  show ?thesis by simp
qed


text \<open>
  When the path equals the URL of some node's subject, the method reads
  \<^verbatim>\<open>self.object.content_object\<close> while \<^verbatim>\<open>self.object\<close> is still \<open>None\<close>.
\<close>

lemma path_match_raises:
  "determine_object_from_context menu_db (new_processor (path_context ''/a/b/'') 0 64 None)
     = Inl AttributeError"
  by (simp add: processor_defs example_defs)



subsection \<open>The node\<close>

lemma determine_object_node_None:
  "determine_object_from_context db (new_processor c lo hi kw) = Inr p \<Longrightarrow> node p = None"
  by (auto simp: determine_object_from_context_def new_processor_def Let_def
      split: if_splits sum.splits list.splits option.splits)

text \<open>
  C9. Let the subject found by the first step be one whose class declares the relation
  \<^verbatim>\<open>menu_node\<close>. When the relation holds no node, \<^verbatim>\<open>determine_node_from_object\<close> raises
  \<^verbatim>\<open>DoesNotExist\<close>; when it holds more than one, \<^verbatim>\<open>MultipleObjectsReturned\<close>; either
  way the constructor ends with that exception. When it holds exactly one node, that
  node becomes the processor's node.
\<close>

theorem direct_relation_lookup:
  assumes "determine_object_from_context db (new_processor c lo hi kw) = Inr p"
    and "object p = Some s" and "menu_node s"
  shows "(nodes_of_subject db s = [] \<longrightarrow>
            determine_node_from_object db p = Inl DoesNotExist
            \<and> MenuProcessor_init db c lo hi kw = Inl DoesNotExist)
       \<and> (1 < length (nodes_of_subject db s) \<longrightarrow>
            determine_node_from_object db p = Inl MultipleObjectsReturned
            \<and> MenuProcessor_init db c lo hi kw = Inl MultipleObjectsReturned)
       \<and> (\<forall>n. nodes_of_subject db s = [n] \<longrightarrow>
            determine_node_from_object db p = Inr (p\<lparr>node := Some n\<rparr>)
            \<and> MenuProcessor_init db c lo hi kw = Inr (p\<lparr>node := Some n\<rparr>))"
proof -
  have n: "node p = None"
    using assms(1) by (rule determine_object_node_None)
  have many: "1 < length xs \<Longrightarrow> queryset_get xs = Inl MultipleObjectsReturned"
    for xs :: "MenuNode list"
    by (cases xs rule: queryset_get.cases) simp_all
  have step: "determine_node_from_object db p =
      (case queryset_get (nodes_of_subject db s) of
         Inl e \<Rightarrow> Inl e | Inr n \<Rightarrow> Inr (p\<lparr>node := Some n\<rparr>))"
    using n assms(2,3) by (simp add: determine_node_from_object_def)
  have init: "MenuProcessor_init db c lo hi kw = determine_node_from_object db p"
    using assms(1) by (simp add: MenuProcessor_init_def)
  show ?thesis
    unfolding init step by (auto simp: many)
qed

theorem direct_relation_lookup_witness:
  "MenuProcessor_init broken_db empty_context 0 64 (Some (Some (page 9 ''/nine/'')))
     = Inl DoesNotExist
   \<and> MenuProcessor_init broken_db (object_context (page 4 ''/a/b/d/'')) 0 64 None
     = Inl MultipleObjectsReturned
   \<and> map_sum id node (MenuProcessor_init menu_db (object_context (page 4 ''/a/b/d/'')) 0 64 None)
     = Inr (Some node_D)"
proof -
  let ?p9 = "new_processor empty_context 0 64 (Some (Some (page 9 ''/nine/'')))"
  let ?c4 = "object_context (page 4 ''/a/b/d/'')"
  let ?p4 = "(new_processor ?c4 0 64 None)\<lparr>object := Some (page 4 ''/a/b/d/'')\<rparr>"
  have a: "determine_object_from_context broken_db ?p9 = Inr ?p9"
    by (simp add: processor_defs)
  have b: "determine_object_from_context broken_db (new_processor ?c4 0 64 None) = Inr ?p4"
    by (simp add: processor_defs example_defs)
  have c: "determine_object_from_context menu_db (new_processor ?c4 0 64 None) = Inr ?p4"
    by (simp add: processor_defs example_defs)
  have n9: "nodes_of_subject broken_db (page 9 ''/nine/'') = []"
    by (simp add: nodes_of_subject_def tree_all_def example_defs)
  have n4: "1 < length (nodes_of_subject broken_db (page 4 ''/a/b/d/''))"
    by (simp add: nodes_of_subject_def tree_all_def example_defs)
  have m4: "nodes_of_subject menu_db (page 4 ''/a/b/d/'') = [node_D]"
    by (simp add: nodes_of_subject_def tree_all_def example_defs)
  have pg: "menu_node (page i u)" for i u
    by (simp add: page_def)
  from direct_relation_lookup [OF a _ pg, of 9 "''/nine/''"] n9
  have r1: "MenuProcessor_init broken_db empty_context 0 64 (Some (Some (page 9 ''/nine/'')))
      = Inl DoesNotExist"
    by (simp add: new_processor_def)
  from direct_relation_lookup [OF b _ pg, of 4 "''/a/b/d/''"] n4
  have r2: "MenuProcessor_init broken_db ?c4 0 64 None = Inl MultipleObjectsReturned"
    by simp
  from direct_relation_lookup [OF c _ pg, of 4 "''/a/b/d/''"] m4
  have r3: "MenuProcessor_init menu_db ?c4 0 64 None = Inr (?p4\<lparr>node := Some node_D\<rparr>)"
    by simp
  show ?thesis using r1 r2 r3 by simp
qed

subsection \<open>get_nodes\<close>

lemma determine_tree_cache [simp]:
  "determine_tree st db (p\<lparr>cache := x\<rparr>) = determine_tree st db p"
  by (cases st)
    (simp_all add: get_branch_nodes_def get_root_and_branch_nodes_def
      get_root_and_sibblings_nodes_def get_root_and_children_nodes_def get_children_nodes_def
      get_ancestors_nodes_def get_descendants_nodes_def)

lemma tree_or_default_cache [simp]:
  "tree_or_default st db (p\<lparr>cache := x\<rparr>) = tree_or_default st db p"
  by (simp add: tree_or_default_def get_default_tree_def split: sum.splits error.splits)

lemma build_nodes_Inr:
  "build_nodes st db (h, p) = Inr (r, h', p') \<Longrightarrow>
     \<exists>ns. tree_or_default st db p = Inr ns \<and> r = length h
       \<and> h' = h @ [level_range (level_min p) (level_max p) ns]
       \<and> p' = p\<lparr>cache := cache_setitem (cache p) (obj_key (object p)) (length h)\<rparr>"
  by (auto simp: build_nodes_def Let_def split: sum.splits)

lemma get_nodes_Inr:
  assumes "get_nodes st db (h, p) = Inr (r, h', p')"
  shows "(cache p (obj_key (object p)) = Some r \<and> qs_at h r \<noteq> [] \<and> h' = h \<and> p' = p)
       \<or> build_nodes st db (h, p) = Inr (r, h', p')"
  using assms
  by (auto simp: get_nodes_def cache_getitem_def split: option.splits if_splits)

lemma pass_inv_created:
  assumes "MenuProcessor_init db c lo hi kw = Inr p"
  shows "pass_inv st db lo hi ([], p)"
proof -
  obtain q where q: "determine_object_from_context db (new_processor c lo hi kw) = Inr q"
    and p: "determine_node_from_object db q = Inr p"
    using assms by (auto simp: MenuProcessor_init_def split: sum.splits)
  have "level_min q = lo \<and> level_max q = hi \<and> cache q = Map.empty"
    using q
    by (auto simp: determine_object_from_context_def new_processor_def MenuCache_new_def Let_def
        split: if_splits sum.splits list.splits option.splits)
  then have "level_min p = lo \<and> level_max p = hi \<and> cache p = Map.empty"
    using p
    by (auto simp: determine_node_from_object_def split: if_splits sum.splits option.splits)
  then show ?thesis
    by (simp add: pass_inv_def)
qed

lemma pass_inv_called:
  assumes inv: "pass_inv st db lo hi (h, p)"
    and call: "get_nodes st db (h, p) = Inr (r, h', p')"
  shows "pass_inv st db lo hi (h', p')
       \<and> r < length h'
       \<and> (\<exists>ns. tree_or_default st db p = Inr ns \<and> h' ! r = level_range lo hi ns)
       \<and> node p' = node p \<and> object p' = object p"
proof -
  from get_nodes_Inr [OF call] show ?thesis
  proof
    assume "cache p (obj_key (object p)) = Some r \<and> qs_at h r \<noteq> [] \<and> h' = h \<and> p' = p"
    then show ?thesis using inv by (auto simp: pass_inv_def)
  next
    assume "build_nodes st db (h, p) = Inr (r, h', p')"
    from build_nodes_Inr [OF this] obtain ns where
      ns: "tree_or_default st db p = Inr ns" and r: "r = length h"
      and h': "h' = h @ [level_range (level_min p) (level_max p) ns]"
      and p': "p' = p\<lparr>cache := cache_setitem (cache p) (obj_key (object p)) (length h)\<rparr>"
      by blast
    have lv: "level_min p = lo" "level_max p = hi"
      using inv by (simp_all add: pass_inv_def)
    have old: "cache p k = Some i \<Longrightarrow> i < length h \<and> h ! i = level_range lo hi ns" for k i
      using inv ns by (auto simp: pass_inv_def)
    have "pass_inv st db lo hi (h', p')"
      unfolding pass_inv_def h' p'
      using lv ns old
      by (auto simp: cache_setitem_def nth_append less_Suc_eq)
    then show ?thesis
      using ns by (simp add: r h' p' lv)
  qed
qed

lemma pass_state_inv:
  "pass_state st db c lo hi kw s \<Longrightarrow> pass_inv st db lo hi s"
proof (induction rule: pass_state.induct)
  case (created p)
  then show ?case by (rule pass_inv_created)
next
  case (called s r s')
  then show ?case
    using pass_inv_called [of st db lo hi "fst s" "snd s" r "fst s'" "snd s'"] by simp
qed

lemma level_range_bounds:
  "m \<in> set (level_range lo hi ns) \<Longrightarrow> lo \<le> int (level m) \<and> int (level m) \<le> hi"
  by (simp add: level_range_def)

text \<open>
  C1. In every state of a pass whose processor was built with the window \<open>lo\<close>, \<open>hi\<close>,
  each node of the sequence that \<^verbatim>\<open>get_nodes\<close> returns has a level between \<open>lo\<close> and
  \<open>hi\<close>, both included.
\<close>

theorem get_nodes_within_window:
  assumes "pass_state st db c lo hi kw s"
    and "get_nodes st db s = Inr (r, h', p')"
  shows "\<forall>m \<in> set (qs_at h' r). lo \<le> int (level m) \<and> int (level m) \<le> hi"
proof -
  have "pass_inv st db lo hi (fst s, snd s)"
    using assms(1) by (simp add: pass_state_inv)
  from pass_inv_called [OF this, of r h' p'] assms(2)
  obtain ns where "r < length h'" "h' ! r = level_range lo hi ns"
    by auto
  then show ?thesis
    by (auto simp: qs_at_def dest: level_range_bounds)
qed

lemmas get_nodes_defs = get_nodes_def build_nodes_def tree_or_default_def get_default_tree_def
  get_all_nodes_def get_root_nodes_def root_nodes_def cache_getitem_def cache_setitem_def
  obj_key_def level_range_def qs_at_def returned_rows_def resolve_def call_twice_def
  resolve_twice_def MENU_MAX_LEVEL_def

theorem get_nodes_within_window_witness:
  "get_nodes AllNodes menu_db ([], new_processor empty_context 1 1 (Some None))
     = Inr (0, [[node_B, node_C]],
            (new_processor empty_context 1 1 (Some None))\<lparr>cache := cache_setitem Map.empty None 0\<rparr>)
   \<and> 1 \<le> int (level node_B) \<and> int (level node_B) \<le> 1
   \<and> 1 \<le> int (level node_C) \<and> int (level node_C) \<le> 1"
proof -
  let ?P = "new_processor empty_context 1 1 (Some None)"
  have i: "MenuProcessor_init menu_db empty_context 1 1 (Some None) = Inr ?P"
    by (simp add: processor_defs)
  have ps: "pass_state AllNodes menu_db empty_context 1 1 (Some None) ([], ?P)"
    using i by (rule pass_state.created)
  have call: "get_nodes AllNodes menu_db ([], ?P)
     = Inr (0, [[node_B, node_C]], ?P\<lparr>cache := cache_setitem Map.empty None 0\<rparr>)"
    by (simp add: get_nodes_defs new_processor_def MenuCache_new_def tree_all_def example_defs)
  from get_nodes_within_window [OF ps call] call show ?thesis
    by (simp add: qs_at_def)
qed







text \<open>
  C3, as the claim states it, fails when the window leaves no row: page 4 has exactly
  one node, yet with the window from 3 to 64 the second call builds a second query set
  instead of returning the first.
\<close>

theorem empty_result_recomputed:
  "nodes_of_subject menu_db (page 4 ''/a/b/d/'') = [node_D]
   \<and> resolve_twice AllNodes menu_db empty_context 3 64 (Some (Some (page 4 ''/a/b/d/'')))
       = Inr ((0, [[]]), (1, [[], []]))"
  by (simp add: processor_defs get_nodes_defs example_defs)

text \<open>
  C3, amended. When a call of \<^verbatim>\<open>get_nodes\<close> returns a sequence with at least one row,
  the next call on the same processor returns the same reference and leaves heap and
  processor as they are: no query set is built.
\<close>

theorem second_call_hits_cache:
  assumes "get_nodes st db s = Inr (r, h1, p1)" and "qs_at h1 r \<noteq> []"
  shows "get_nodes st db (h1, p1) = Inr (r, h1, p1)"
proof -
  obtain h p where s: "s = (h, p)" by (cases s)
  from get_nodes_Inr [OF assms(1) [unfolded s]] show ?thesis
  proof
    assume "cache p (obj_key (object p)) = Some r \<and> qs_at h r \<noteq> [] \<and> h1 = h \<and> p1 = p"
    then show ?thesis using assms(1) s by simp
  next
    assume "build_nodes st db (h, p) = Inr (r, h1, p1)"
    from build_nodes_Inr [OF this] have
      "cache p1 (obj_key (object p1)) = Some r"
      by (auto simp: cache_setitem_def)
    then show ?thesis
      using assms(2) by (simp add: get_nodes_def cache_getitem_def)
  qed
qed

theorem second_call_hits_cache_witness:
  "call_twice AllNodes menu_db
     ([], (new_processor empty_context 0 64 (Some (Some (page 4 ''/a/b/d/''))))\<lparr>node := Some node_D\<rparr>)
     = Inr ((0, [[node_A, node_B, node_D, node_C]]), (0, [[node_A, node_B, node_D, node_C]]))"
proof -
  let ?P = "(new_processor empty_context 0 64 (Some (Some (page 4 ''/a/b/d/''))))\<lparr>node := Some node_D\<rparr>"
  let ?P1 = "?P\<lparr>cache := cache_setitem Map.empty (Some (''page'', 4)) 0\<rparr>"
  have a: "get_nodes AllNodes menu_db ([], ?P) = Inr (0, [[node_A, node_B, node_D, node_C]], ?P1)"
    by (simp add: get_nodes_defs new_processor_def MenuCache_new_def tree_all_def example_defs)
  have b: "qs_at [[node_A, node_B, node_D, node_C]] 0 \<noteq> []"
    by (simp add: qs_at_def)
  from second_call_hits_cache [OF a b] a show ?thesis
    by (simp add: call_twice_def)
qed

text \<open>
  C10. After a call of \<^verbatim>\<open>get_nodes\<close>, the next call returns the stored reference
  without building anything exactly when the stored sequence has a row. When it has
  none, the next call builds a new, again empty, query set and returns the reference to
  that one.
\<close>

theorem hit_only_when_nonempty:
  assumes "get_nodes st db s = Inr (r, h1, p1)"
  shows "(get_nodes st db (h1, p1) = Inr (r, h1, p1)) = (qs_at h1 r \<noteq> [])
       \<and> (qs_at h1 r = [] \<longrightarrow>
            r < length h1
            \<and> get_nodes st db (h1, p1)
                = Inr (length h1, h1 @ [[]],
                       p1\<lparr>cache := cache_setitem (cache p1) (obj_key (object p1)) (length h1)\<rparr>))"
proof -
  obtain h p where s: "s = (h, p)" by (cases s)
  from get_nodes_Inr [OF assms [unfolded s]] show ?thesis
  proof
    assume hit: "cache p (obj_key (object p)) = Some r \<and> qs_at h r \<noteq> [] \<and> h1 = h \<and> p1 = p"
    then show ?thesis using assms s by simp
  next
    assume "build_nodes st db (h, p) = Inr (r, h1, p1)"
    from build_nodes_Inr [OF this] obtain ns where
      ns: "tree_or_default st db p = Inr ns" and r: "r = length h"
      and h1: "h1 = h @ [level_range (level_min p) (level_max p) ns]"
      and p1: "p1 = p\<lparr>cache := cache_setitem (cache p) (obj_key (object p)) (length h)\<rparr>"
      by blast
    have k: "cache p1 (obj_key (object p1)) = Some r"
      by (simp add: p1 r cache_setitem_def)
    have q: "qs_at h1 r = level_range (level_min p) (level_max p) ns"
      by (simp add: qs_at_def h1 r)
    have lt: "r < length h1"
      by (simp add: h1 r)
    show ?thesis
    proof (cases "qs_at h1 r = []")
      case False
      then have "get_nodes st db (h1, p1) = Inr (r, h1, p1)"
        using k by (simp add: get_nodes_def cache_getitem_def)
      then show ?thesis using False by simp
    next
      case True
      have t: "tree_or_default st db p1 = Inr ns"
        by (simp add: p1 ns)
      have lv: "level_min p1 = level_min p" "level_max p1 = level_max p"
        by (simp_all add: p1)
      have "get_nodes st db (h1, p1) = build_nodes st db (h1, p1)"
        using k True by (simp add: get_nodes_def cache_getitem_def)
      also have "\<dots> = Inr (length h1, h1 @ [[]],
          p1\<lparr>cache := cache_setitem (cache p1) (obj_key (object p1)) (length h1)\<rparr>)"
        using True q by (simp add: build_nodes_def t lv Let_def)
      finally show ?thesis
        using True lt by simp
    qed
  qed
qed

theorem hit_only_when_nonempty_witness:
  "get_nodes AllNodes menu_db ([], new_processor empty_context 3 64 (Some None))
     = Inr (0, [[]], (new_processor empty_context 3 64 (Some None))\<lparr>cache := cache_setitem Map.empty None 0\<rparr>)
   \<and> get_nodes AllNodes menu_db
        ([[]], (new_processor empty_context 3 64 (Some None))\<lparr>cache := cache_setitem Map.empty None 0\<rparr>)
     = Inr (1, [[], []],
            (new_processor empty_context 3 64 (Some None))
              \<lparr>cache := cache_setitem (cache_setitem Map.empty None 0) None 1\<rparr>)"
proof -
  let ?P = "new_processor empty_context 3 64 (Some None)"
  let ?Q = "?P\<lparr>cache := cache_setitem Map.empty None 0\<rparr>"
  have a: "get_nodes AllNodes menu_db ([], ?P) = Inr (0, [[]], ?Q)"
    by (simp add: get_nodes_defs new_processor_def MenuCache_new_def tree_all_def example_defs)
  have e: "qs_at [[]] 0 = ([] :: queryset)"
    by (simp add: qs_at_def)
  have k: "obj_key (object ?Q) = None"
    by (simp add: new_processor_def obj_key_def)
  from hit_only_when_nonempty [OF a] e k a show ?thesis
    by simp
qed



text \<open>
  C8. In the tree with root A, children B and C, and D under B, the subject bound to D
  resolves to D, and the strategy of the ancestors returns A, then B; the same when the
  subject comes from the context.
\<close>

theorem ancestors_scenario:
  "map_sum id node (MenuProcessor_init menu_db empty_context 0 MENU_MAX_LEVEL
       (Some (Some (page 4 ''/a/b/d/'')))) = Inr (Some node_D)
   \<and> resolve AncestorsNodes menu_db empty_context 0 MENU_MAX_LEVEL (Some (Some (page 4 ''/a/b/d/'')))
       = Inr [node_A, node_B]
   \<and> resolve AncestorsNodes menu_db (object_context (page 4 ''/a/b/d/'')) 0 MENU_MAX_LEVEL None
       = Inr [node_A, node_B]"
  by (simp add: processor_defs get_nodes_defs get_ancestors_nodes_def get_ancestors_def
      is_root_node_def example_defs)

subsection \<open>The branch of a node\<close>

lemma wf_parent:
  assumes "wf_mptt ns" and "m \<in> set ns" and "parent m = Some i"
  shows "\<exists>q \<in> set ns. node_id q = i \<and> tree_id q = tree_id m \<and> lft q < lft m \<and> rght m < rght q"
proof -
  have "case parent m of
          None \<Rightarrow> level m = 0 \<and> (\<forall>r \<in> set ns. parent r = None \<and> tree_id r = tree_id m \<longrightarrow> r = m)
        | Some i \<Rightarrow>
            (\<exists>q \<in> set ns. node_id q = i \<and> tree_id q = tree_id m \<and> lft q < lft m
               \<and> rght m < rght q \<and> level m = Suc (level q))"
    using assms(1,2) unfolding wf_mptt_def by blast
  then show ?thesis
    using assms(3) by auto
qed

lemma wf_same_id:
  assumes "wf_mptt ns" and "q \<in> set ns" and "q' \<in> set ns" and "node_id q = node_id q'"
  shows "q = q'"
proof -
  have "inj_on node_id (set ns)"
    using assms(1) by (simp add: wf_mptt_def distinct_map)
  then show ?thesis
    using assms(2-4) by (auto dest: inj_onD)
qed

lemma wf_unique_root:
  assumes "wf_mptt ns" and "r \<in> set ns" and "r' \<in> set ns"
    and "parent r = None" and "parent r' = None" and "tree_id r' = tree_id r"
  shows "r' = r"
proof -
  have "case parent r of
          None \<Rightarrow> level r = 0 \<and> (\<forall>x \<in> set ns. parent x = None \<and> tree_id x = tree_id r \<longrightarrow> x = r)
        | Some i \<Rightarrow>
            (\<exists>q \<in> set ns. node_id q = i \<and> tree_id q = tree_id r \<and> lft q < lft r
               \<and> rght r < rght q \<and> level r = Suc (level q))"
    using assms(1,2) unfolding wf_mptt_def by blast
  then show ?thesis
    using assms(3-6) by auto
qed

lemma wf_interval: "wf_mptt ns \<Longrightarrow> m \<in> set ns \<Longrightarrow> lft m < rght m"
  by (simp add: wf_mptt_def)

lemma descendant_inside:
  assumes wf: "wf_mptt ns" and a: "a \<in> set ns"
  shows "descendant_of ns a m \<Longrightarrow> tree_id m = tree_id a \<and> lft a < lft m \<and> rght m < rght a"
proof (induction rule: descendant_of.induct)
  case (child m)
  from wf_parent [OF wf child(1,2)] obtain q where
    q: "q \<in> set ns" "node_id q = node_id a" "tree_id q = tree_id m" "lft q < lft m" "rght m < rght q"
    by blast
  have "q = a" using wf q(1) a q(2) by (rule wf_same_id)
  then show ?case using q by simp
next
  case (deeper m q)
  from wf_parent [OF wf deeper(1,3)] obtain q' where
    q': "q' \<in> set ns" "node_id q' = node_id q" "tree_id q' = tree_id m" "lft q' < lft m"
      "rght m < rght q'"
    by blast
  have "q' = q" using wf q'(1) deeper(2) q'(2) by (rule wf_same_id)
  then show ?case using q' deeper.IH by simp
qed

lemma reaches_root:
  assumes wf: "wf_mptt ns"
  shows "m \<in> set ns \<Longrightarrow>
    \<exists>r \<in> set ns. parent r = None \<and> tree_id r = tree_id m \<and> (m = r \<or> descendant_of ns r m)"
proof (induction "lft m" arbitrary: m rule: less_induct)
  case less
  show ?case
  proof (cases "parent m")
    case None
    then show ?thesis using less.prems by blast
  next
    case (Some i)
    from wf_parent [OF wf less.prems Some] obtain q where
      q: "q \<in> set ns" "node_id q = i" "tree_id q = tree_id m" "lft q < lft m"
      by blast
    from less.hyps [OF q(4) q(1)] obtain r where
      r: "r \<in> set ns" "parent r = None" "tree_id r = tree_id q" "q = r \<or> descendant_of ns r q"
      by blast
    have pm: "parent m = Some (node_id q)"
      using Some q(2) by simp
    have "descendant_of ns r m"
    proof (cases "q = r")
      case True
      then show ?thesis using less.prems pm by (simp add: descendant_of.child)
    next
      case False
      then have "descendant_of ns r q" using r(4) by simp
      with less.prems q(1) pm show ?thesis by (rule descendant_of.deeper)
    qed
    then show ?thesis using r q(3) by auto
  qed
qed

lemma filter_single:
  assumes "distinct xs" and "x \<in> set xs" and "P x"
    and "\<forall>y \<in> set xs. P y \<longrightarrow> y = x"
  shows "filter P xs = [x]"
  using assms
proof (induction xs)
  case Nil
  then show ?case by simp
next
  case (Cons z zs)
  show ?case
  proof (cases "z = x")
    case True
    have "x \<notin> set zs"
      using Cons.prems(1) True by simp
    then have "\<forall>y \<in> set zs. \<not> P y"
      using Cons.prems(4) by fastforce
    then have "filter P zs = []"
      by (simp add: filter_empty_conv)
    then show ?thesis
      using True Cons.prems(3) by simp
  next
    case False
    have nz: "\<not> P z"
      using Cons.prems(4) False by fastforce
    have "x \<in> set zs"
      using Cons.prems(2) False by simp
    moreover have "distinct zs"
      using Cons.prems(1) by simp
    moreover have "\<forall>y \<in> set zs. P y \<longrightarrow> y = x"
      using Cons.prems(4) by simp
    ultimately have "filter P zs = [x]"
      using Cons.IH Cons.prems(3) by blast
    then show ?thesis
      using nz by simp
  qed
qed

lemma tree_rows:
  assumes wf: "wf_mptt (menu_nodes db)" and r: "r \<in> set (menu_nodes db)" and pr: "parent r = None"
  shows "{m \<in> set (menu_nodes db). tree_id m = tree_id r}
       = {m \<in> set (menu_nodes db). m = r \<or> descendant_of (menu_nodes db) r m}"
proof (intro set_eqI iffI)
  fix m assume "m \<in> {m \<in> set (menu_nodes db). tree_id m = tree_id r}"
  then have m: "m \<in> set (menu_nodes db)" "tree_id m = tree_id r" by simp_all
  from reaches_root [OF wf m(1)] obtain r' where
    r': "r' \<in> set (menu_nodes db)" "parent r' = None" "tree_id r' = tree_id m"
      "m = r' \<or> descendant_of (menu_nodes db) r' m"
    by blast
  have "r' = r" using wf r r'(1) pr r'(2) by (rule wf_unique_root) (simp add: r'(3) m(2))
  then show "m \<in> {m \<in> set (menu_nodes db). m = r \<or> descendant_of (menu_nodes db) r m}"
    using m(1) r'(4) by auto
next
  fix m assume "m \<in> {m \<in> set (menu_nodes db). m = r \<or> descendant_of (menu_nodes db) r m}"
  then show "m \<in> {m \<in> set (menu_nodes db). tree_id m = tree_id r}"
    using descendant_inside [OF wf r] by auto
qed

lemma get_root_wf:
  assumes wf: "wf_mptt (menu_nodes db)" and n: "n \<in> set (menu_nodes db)"
  shows "\<exists>r \<in> set (menu_nodes db). get_root db n = Inr r \<and> parent r = None
           \<and> tree_id r = tree_id n \<and> (n = r \<or> descendant_of (menu_nodes db) r n)"
proof (cases "parent n")
  case None
  then show ?thesis using n by (auto simp: get_root_def is_root_node_def)
next
  case (Some i)
  from reaches_root [OF wf n] obtain r where
    r: "r \<in> set (menu_nodes db)" "parent r = None" "tree_id r = tree_id n"
      "n = r \<or> descendant_of (menu_nodes db) r n"
    by blast
  have d: "distinct (tree_all db)"
    using wf by (simp add: wf_mptt_def distinct_rows)
  have "filter (\<lambda>x. tree_id x = tree_id n \<and> parent x = None) (tree_all db) = [r]"
  proof (rule filter_single [OF d])
    show "r \<in> set (tree_all db)" using r(1) by simp
    show "tree_id r = tree_id n \<and> parent r = None" using r by simp
    show "\<forall>y \<in> set (tree_all db). tree_id y = tree_id n \<and> parent y = None \<longrightarrow> y = r"
    proof (intro ballI impI)
      fix y assume y: "y \<in> set (tree_all db)" "tree_id y = tree_id n \<and> parent y = None"
      have "y \<in> set (menu_nodes db)" using y(1) by simp
      with wf r(1) show "y = r"
        by (rule wf_unique_root) (use y(2) r in simp_all)
    qed
  qed
  then have "get_root db n = Inr r"
    using Some by (simp add: get_root_def is_root_node_def)
  then show ?thesis using r by blast
qed

lemma get_descendants_root:
  assumes wf: "wf_mptt (menu_nodes db)" and r: "r \<in> set (menu_nodes db)" and pr: "parent r = None"
  shows "set (get_descendants db r True) = {m \<in> set (menu_nodes db). tree_id m = tree_id r}"
proof -
  have inside: "lft r \<le> lft m \<and> lft m \<le> rght r \<and> (m \<noteq> r \<longrightarrow> lft r + 3 \<le> rght r)"
    if "m \<in> set (menu_nodes db)" "tree_id m = tree_id r" for m
  proof -
    have "m \<in> {m \<in> set (menu_nodes db). m = r \<or> descendant_of (menu_nodes db) r m}"
      using that tree_rows [OF wf r pr] by blast
    then have "m = r \<or> descendant_of (menu_nodes db) r m" by simp
    then show ?thesis
    proof
      assume "m = r"
      then show ?thesis using wf_interval [OF wf r] by simp
    next
      assume "descendant_of (menu_nodes db) r m"
      from descendant_inside [OF wf r this] wf_interval [OF wf that(1)]
      show ?thesis by simp
    qed
  qed
  show ?thesis
  proof (cases "is_leaf_node r")
    case True
    then have small: "rght r < lft r + 3"
      by (simp add: is_leaf_node_def get_descendant_count_def)
    have "set (get_descendants db r True) = {m \<in> set (menu_nodes db). node_id m = node_id r}"
      using True by (auto simp: get_descendants_def)
    also have "\<dots> = {m \<in> set (menu_nodes db). tree_id m = tree_id r}"
    proof (intro set_eqI iffI)
      fix m assume "m \<in> {m \<in> set (menu_nodes db). node_id m = node_id r}"
      then have "m = r" using wf_same_id [OF wf _ r] by simp
      then show "m \<in> {m \<in> set (menu_nodes db). tree_id m = tree_id r}" using r by simp
    next
      fix m assume "m \<in> {m \<in> set (menu_nodes db). tree_id m = tree_id r}"
      then have "m = r" using inside [of m] small by auto
      then show "m \<in> {m \<in> set (menu_nodes db). node_id m = node_id r}" using r by simp
    qed
    finally show ?thesis .
  next
    case False
    then have "set (get_descendants db r True)
        = {m \<in> set (menu_nodes db). tree_id m = tree_id r \<and> lft r \<le> lft m \<and> lft m \<le> rght r}"
      by (auto simp: get_descendants_def)
    also have "\<dots> = {m \<in> set (menu_nodes db). tree_id m = tree_id r}"
      using inside by blast
    finally show ?thesis .
  qed
qed

lemma distinct_get_descendants:
  "distinct (menu_nodes db) \<Longrightarrow> distinct (get_descendants db r b)"
  by (simp add: get_descendants_def Let_def)

text \<open>
  C6. On a table that django-mptt keeps well formed, with a node of the table resolved,
  \<^verbatim>\<open>_get_branch_nodes\<close> finds the root of the node's tree (the row without parent from
  which the parent references lead to the node) and returns exactly that root and the
  rows that descend from it: the root and the node are among them, every row returned
  has the node's \<^verbatim>\<open>tree_id\<close>, so no row of another tree is, and no row comes twice.
\<close>

theorem branch_nodes_whole_tree:
  assumes wf: "wf_mptt (menu_nodes db)" and p: "node p = Some n" and n: "n \<in> set (menu_nodes db)"
  shows "\<exists>root ns. get_root db n = Inr root \<and> get_branch_nodes db p = Inr ns
           \<and> root \<in> set (menu_nodes db) \<and> parent root = None
           \<and> (n = root \<or> descendant_of (menu_nodes db) root n)
           \<and> set ns = {m \<in> set (menu_nodes db). m = root \<or> descendant_of (menu_nodes db) root m}
           \<and> root \<in> set ns \<and> n \<in> set ns
           \<and> set ns = {m \<in> set (menu_nodes db). tree_id m = tree_id n}
           \<and> distinct ns"
proof -
  from get_root_wf [OF wf n] obtain r where
    r: "r \<in> set (menu_nodes db)" "get_root db n = Inr r" "parent r = None"
      "tree_id r = tree_id n" "n = r \<or> descendant_of (menu_nodes db) r n"
    by blast
  let ?ns = "get_descendants db r True"
  have b: "get_branch_nodes db p = Inr ?ns"
    using p r(2) by (simp add: get_branch_nodes_def)
  have s1: "set ?ns = {m \<in> set (menu_nodes db). tree_id m = tree_id n}"
    using get_descendants_root [OF wf r(1,3)] r(4) by simp
  have s2: "set ?ns = {m \<in> set (menu_nodes db). m = r \<or> descendant_of (menu_nodes db) r m}"
    using get_descendants_root [OF wf r(1,3)] tree_rows [OF wf r(1,3)] by simp
  have d: "distinct ?ns"
    using wf by (simp add: wf_mptt_def distinct_rows distinct_get_descendants)
  have rin: "r \<in> set ?ns"
    unfolding s1 using r(1,4) by simp
  have nin: "n \<in> set ?ns"
    unfolding s1 using n by simp
  show ?thesis
  proof (intro exI conjI)
    show "get_root db n = Inr r" by (rule r(2))
    show "get_branch_nodes db p = Inr ?ns" by (rule b)
    show "r \<in> set (menu_nodes db)" by (rule r(1))
    show "parent r = None" by (rule r(3))
    show "n = r \<or> descendant_of (menu_nodes db) r n" by (rule r(5))
    show "set ?ns = {m \<in> set (menu_nodes db). m = r \<or> descendant_of (menu_nodes db) r m}"
      by (rule s2)
    show "r \<in> set ?ns" by (rule rin)
    show "n \<in> set ?ns" by (rule nin)
    show "set ?ns = {m \<in> set (menu_nodes db). tree_id m = tree_id n}" by (rule s1)
    show "distinct ?ns" by (rule d)
  qed
qed

theorem branch_nodes_whole_tree_witness:
  "get_root forest_db node_D = Inr node_A
   \<and> get_branch_nodes forest_db
        ((new_processor empty_context 0 64 (Some (Some (page 4 ''/a/b/d/''))))\<lparr>node := Some node_D\<rparr>)
       = Inr [node_A, node_B, node_D, node_C]
   \<and> descendant_of (menu_nodes forest_db) node_A node_D
   \<and> set [node_A, node_B, node_D, node_C]
       = {m \<in> set (menu_nodes forest_db). m = node_A \<or> descendant_of (menu_nodes forest_db) node_A m}
   \<and> node_E \<notin> set [node_A, node_B, node_D, node_C]
   \<and> node_F \<notin> set [node_A, node_B, node_D, node_C]"
proof -
  let ?P = "(new_processor empty_context 0 64 (Some (Some (page 4 ''/a/b/d/''))))\<lparr>node := Some node_D\<rparr>"
  have wf: "wf_mptt (menu_nodes forest_db)"
    by (simp add: wf_mptt_def example_defs)
  have p: "node ?P = Some node_D"
    by simp
  have n: "node_D \<in> set (menu_nodes forest_db)"
    by (simp add: forest_db_def)
  have g: "get_root forest_db node_D = Inr node_A"
    by (simp add: get_root_def is_root_node_def tree_all_def example_defs)
  have b: "get_branch_nodes forest_db ?P = Inr [node_A, node_B, node_D, node_C]"
    by (simp add: get_branch_nodes_def get_root_def is_root_node_def get_descendants_def
        is_leaf_node_def get_descendant_count_def tree_all_def example_defs)
  have ne: "node_D \<noteq> node_A"
    by (simp add: example_defs)
  have out: "node_E \<notin> set [node_A, node_B, node_D, node_C]"
    "node_F \<notin> set [node_A, node_B, node_D, node_C]"
    by (simp_all add: example_defs)
  from branch_nodes_whole_tree [OF wf p n] obtain root ns where
    r: "get_root forest_db node_D = Inr root" "get_branch_nodes forest_db ?P = Inr ns"
      "node_D = root \<or> descendant_of (menu_nodes forest_db) root node_D"
      "set ns = {m \<in> set (menu_nodes forest_db). m = root \<or> descendant_of (menu_nodes forest_db) root m}"
    by blast
  have "root = node_A" using r(1) g by simp
  moreover have "ns = [node_A, node_B, node_D, node_C]" using r(2) b by simp
  ultimately show ?thesis
    using r(3,4) g b ne out by simp
qed

end
